theory Spec2Isabelle
  imports Complex_Main "HOL-Library.Log_Nat"
begin

section \<open>Python values used by \<^verbatim>\<open>main.py\<close>\<close>

text \<open>
  The five endpoints of \<^verbatim>\<open>main.py\<close> are pure functions of their request. Each is
  embedded as a HOL function returning \<open>py_exc + response\<close>: \<open>Inl\<close> carries the exception
  that leaves the endpoint, \<open>Inr\<close> the returned dictionary.

  Python integers are unbounded and are modelled by \<open>int\<close>. A Python string is a sequence
  of code points and is modelled by a list of them (\<open>str\<close>), so that \<^verbatim>\<open>ord\<close> is the
  identity and characters beyond 255 exist; \<open>lit\<close> embeds an ASCII literal. A Python
  float is an IEEE 754 binary64 value (\<open>pyfloat\<close>, below).

  What the interpreter brings along and the code only passes through is a parameter of
  the model (\<open>py_env\<close>): the Unicode tables \<^verbatim>\<open>int()\<close> consults for characters beyond
  ASCII, and \<^verbatim>\<open>str()\<close> of a float. The interpreter's optional limit on the length of
  decimal integer strings (\<^verbatim>\<open>sys.set_int_max_str_digits\<close>) is taken as switched off.
\<close>

type_synonym str = "nat list"

definition lit :: "string \<Rightarrow> str" where
  "lit s = map of_char s"

subsection \<open>Exceptions\<close>

text \<open>
  The \<^verbatim>\<open>detail\<close> messages of the HTTP errors are Ukrainian sentences; they are named
  here by what they say:
  \<^item> \<open>InvalidNumber\<close>: "incorrect number for the given numeral system" (line 72);
  \<^item> \<open>UnsupportedBase\<close>: "only bases 2, 8, 10, 16 are supported" (line 63);
  \<^item> \<open>InvalidFraction\<close>: "incorrect fractional number" (line 128);
  \<^item> \<open>InvalidOperation\<close>: "operation must be 'add', 'sub' or 'mul'" (line 144).
\<close>

datatype detail = InvalidNumber | UnsupportedBase | InvalidFraction | InvalidOperation

datatype py_exc =
    ValueError
  | OverflowError
  | ZeroDivisionError
  | IndexError
  | HTTPException nat detail

text \<open>\<^verbatim>\<open>try: ... except ValueError: raise HTTPException(status_code=400, detail=d)\<close>\<close>

definition except_ValueError :: "detail \<Rightarrow> py_exc + 'a \<Rightarrow> py_exc + 'a" where
  "except_ValueError d body =
     (case body of
        Inl ValueError \<Rightarrow> Inl (HTTPException 400 d)
      | Inl e \<Rightarrow> Inl e
      | Inr v \<Rightarrow> Inr v)"

text \<open>Sequencing of statements that may raise.\<close>

definition bind_exc :: "py_exc + 'a \<Rightarrow> ('a \<Rightarrow> py_exc + 'b) \<Rightarrow> py_exc + 'b" where
  "bind_exc m f = (case m of Inl e \<Rightarrow> Inl e | Inr v \<Rightarrow> f v)"

subsection \<open>Digits\<close>

text \<open>
  CPython's table \<^verbatim>\<open>_PyLong_DigitValue\<close>: the value of a digit character, 37 for every
  character that is no digit in any base.
\<close>

definition digit_value :: "nat \<Rightarrow> nat" where
  "digit_value c =
     (if 48 \<le> c \<and> c \<le> 57 then c - 48
      else if 97 \<le> c \<and> c \<le> 122 then c - 87
      else if 65 \<le> c \<and> c \<le> 90 then c - 55
      else 37)"

text \<open>The digit characters \<^verbatim>\<open>bin\<close>, \<^verbatim>\<open>oct\<close>, \<^verbatim>\<open>hex\<close> and \<^verbatim>\<open>str\<close> write (lower case).\<close>

definition digit_char :: "nat \<Rightarrow> nat" where
  "digit_char d = (if d < 10 then 48 + d else 87 + d)"

function to_digits :: "nat \<Rightarrow> nat \<Rightarrow> str" where
  "to_digits base n =
     (if base < 2 \<or> n < base then [digit_char n]
      else to_digits base (n div base) @ [digit_char (n mod base)])"
  by pat_completeness auto
termination
  by (relation "measure (\<lambda>(base, n). n)") auto

declare to_digits.simps [simp del]

text \<open>\<^verbatim>\<open>str(n)\<close>, \<^verbatim>\<open>bin(n)\<close>, \<^verbatim>\<open>oct(n)\<close>, \<^verbatim>\<open>hex(n)\<close> of an integer: sign, prefix, magnitude.\<close>

definition sign_prefix :: "int \<Rightarrow> str" where
  "sign_prefix n = (if n < 0 then lit ''-'' else [])"

definition py_str :: "int \<Rightarrow> str" where
  "py_str n = sign_prefix n @ to_digits 10 (nat \<bar>n\<bar>)"

definition py_bin :: "int \<Rightarrow> str" where
  "py_bin n = sign_prefix n @ lit ''0b'' @ to_digits 2 (nat \<bar>n\<bar>)"

definition py_oct :: "int \<Rightarrow> str" where
  "py_oct n = sign_prefix n @ lit ''0o'' @ to_digits 8 (nat \<bar>n\<bar>)"

definition py_hex :: "int \<Rightarrow> str" where
  "py_hex n = sign_prefix n @ lit ''0x'' @ to_digits 16 (nat \<bar>n\<bar>)"

text \<open>
  \<^verbatim>\<open>s.upper()\<close>, on the characters \<^verbatim>\<open>hex\<close> can write: the code applies it to nothing else.
\<close>

definition upper_char :: "nat \<Rightarrow> nat" where
  "upper_char c = (if 97 \<le> c \<and> c \<le> 122 then c - 32 else c)"

definition upper :: "str \<Rightarrow> str" where
  "upper s = map upper_char s"

text \<open>
  \<^verbatim>\<open>s.zfill(width)\<close>: zeros on the left up to \<open>width\<close>, after a leading sign if there is one.
\<close>

definition zfill :: "nat \<Rightarrow> str \<Rightarrow> str" where
  "zfill width s =
     (if width \<le> length s then s
      else (case s of
              [] \<Rightarrow> replicate width 48
            | c # cs \<Rightarrow>
                if c = 43 \<or> c = 45
                then c # replicate (width - length s) 48 @ cs
                else replicate (width - length s) 48 @ s))"

text \<open>
  \<^verbatim>\<open>chr(i)\<close>: the argument must fit a C \<^verbatim>\<open>int\<close> (\<^verbatim>\<open>OverflowError\<close>) and be a code point
  (\<^verbatim>\<open>ValueError\<close>).
\<close>

definition py_chr :: "int \<Rightarrow> py_exc + nat" where
  "py_chr i =
     (if i < - (2 ^ 31) \<or> 2 ^ 31 \<le> i then Inl OverflowError
      else if i < 0 \<or> 1114112 \<le> i then Inl ValueError
      else Inr (nat i))"

subsection \<open>Floats\<close>

text \<open>
  A Python float is an IEEE 754 binary64 value: a sign with a magnitude (a rational
  that the format represents; zero has a sign too), an infinity, or a NaN. Arithmetic
  is the exact operation followed by rounding to nearest, ties to even, which is what
  the hardware does for \<^verbatim>\<open>+\<close>, \<^verbatim>\<open>-\<close> and \<^verbatim>\<open>*\<close> and what CPython does when it converts an
  integer. The sign of a NaN that an invalid operation produces differs between
  machines; no endpoint can observe it.
\<close>

datatype pyfloat = Finite bool rat | Infinity bool | NaN bool

text \<open>\<open>ilog2 x\<close> is the exponent of a positive \<open>x\<close>: \<open>2 powi (ilog2 x) \<le> x < 2 powi (ilog2 x + 1)\<close>.\<close>

definition ilog2 :: "rat \<Rightarrow> int" where
  "ilog2 x =
     (let (p, q) = quotient_of x; d = bitlen p - bitlen q
      in if 2 powi d \<le> x then d else d - 1)"

definition round_half_even :: "rat \<Rightarrow> int" where
  "round_half_even x =
     (let n = \<lfloor>x\<rfloor>; r = x - of_int n
      in if r < 1 / 2 then n
         else if 1 / 2 < r then n + 1
         else if even n then n else n + 1)"

text \<open>
  Rounding a magnitude to a binary format with \<open>p\<close> significant bits and least normal
  exponent \<open>emin\<close>: the result is a multiple of the unit in the last place at the
  exponent of \<open>x\<close> (at \<open>emin\<close> for subnormal \<open>x\<close>).
\<close>

definition round_to_format :: "nat \<Rightarrow> int \<Rightarrow> rat \<Rightarrow> rat" where
  "round_to_format p emin x =
     (let e = max (ilog2 x) emin; q = 2 powi (e - int p + 1)
      in of_int (round_half_even (x / q)) * q)"

definition round64 :: "rat \<Rightarrow> rat" where
  "round64 x = round_to_format 53 (- 1022) x"

definition round32 :: "rat \<Rightarrow> rat" where
  "round32 x = round_to_format 24 (- 126) x"

text \<open>The binary64 result of an operation whose exact value has sign \<open>s\<close> and magnitude \<open>x\<close>.\<close>

definition fl64 :: "bool \<Rightarrow> rat \<Rightarrow> pyfloat" where
  "fl64 s x = (let y = round64 x in if 2 ^ 1024 \<le> y then Infinity s else Finite s y)"

fun fneg :: "pyfloat \<Rightarrow> pyfloat" where
  "fneg (Finite s m) = Finite (\<not> s) m"
| "fneg (Infinity s) = Infinity (\<not> s)"
| "fneg (NaN s) = NaN (\<not> s)"

fun fmul :: "pyfloat \<Rightarrow> pyfloat \<Rightarrow> pyfloat" where
  "fmul (NaN s) y = NaN s"
| "fmul x (NaN s) = NaN s"
| "fmul (Finite s1 m1) (Finite s2 m2) = fl64 (s1 \<noteq> s2) (m1 * m2)"
| "fmul (Finite s1 m1) (Infinity s2) = (if m1 = 0 then NaN True else Infinity (s1 \<noteq> s2))"
| "fmul (Infinity s1) (Finite s2 m2) = (if m2 = 0 then NaN True else Infinity (s1 \<noteq> s2))"
| "fmul (Infinity s1) (Infinity s2) = Infinity (s1 \<noteq> s2)"

fun fadd :: "pyfloat \<Rightarrow> pyfloat \<Rightarrow> pyfloat" where
  "fadd (NaN s) y = NaN s"
| "fadd x (NaN s) = NaN s"
| "fadd (Finite s1 m1) (Finite s2 m2) =
     (if s1 = s2 then fl64 s1 (m1 + m2)
      else if m1 = m2 then Finite False 0
      else if m2 < m1 then fl64 s1 (m1 - m2)
      else fl64 s2 (m2 - m1))"
| "fadd (Finite s1 m1) (Infinity s2) = Infinity s2"
| "fadd (Infinity s1) (Finite s2 m2) = Infinity s1"
| "fadd (Infinity s1) (Infinity s2) = (if s1 = s2 then Infinity s1 else NaN True)"

definition fsub :: "pyfloat \<Rightarrow> pyfloat \<Rightarrow> pyfloat" where
  "fsub x y = fadd x (fneg y)"

text \<open>\<^verbatim>\<open>x == 0\<close> on a float.\<close>

fun float_is_zero :: "pyfloat \<Rightarrow> bool" where
  "float_is_zero (Finite s m) = (m = 0)"
| "float_is_zero _ = False"

text \<open>
  An integer operand of float arithmetic is converted first (\<^verbatim>\<open>PyLong_AsDouble\<close>, correctly
  rounded); \<^verbatim>\<open>OverflowError\<close> when it is too large for a float.
\<close>

definition int_to_float :: "int \<Rightarrow> py_exc + pyfloat" where
  "int_to_float n =
     (case fl64 (n < 0) (of_int \<bar>n\<bar>) of
        Infinity s \<Rightarrow> Inl OverflowError
      | y \<Rightarrow> Inr y)"

text \<open>\<^verbatim>\<open>int(x)\<close> of a float truncates towards zero.\<close>

fun float_to_int :: "pyfloat \<Rightarrow> py_exc + int" where
  "float_to_int (Finite s m) = Inr (if s then - \<lfloor>m\<rfloor> else \<lfloor>m\<rfloor>)"
| "float_to_int (Infinity s) = Inl OverflowError"
| "float_to_int (NaN s) = Inl ValueError"

text \<open>
  \<^verbatim>\<open>base ** -k\<close> for integers \<open>base \<ge> 0\<close> and \<open>k > 0\<close>: CPython converts both to floats and
  calls the C library's \<^verbatim>\<open>pow\<close>, which is taken to round correctly. Zero to a negative
  power is a \<^verbatim>\<open>ZeroDivisionError\<close>.
\<close>

definition pow_neg :: "nat \<Rightarrow> nat \<Rightarrow> py_exc + pyfloat" where
  "pow_neg base k =
     (if base = 0 then Inl ZeroDivisionError
      else bind_exc (int_to_float (int base))
             (\<lambda>x. case x of
                     Finite s m \<Rightarrow> Inr (fl64 False (1 / m ^ k))
                   | _ \<Rightarrow> Inr x))"

subsection \<open>What the interpreter brings along\<close>

text \<open>
  \<open>unicode_isspace\<close> and \<open>unicode_todecimal\<close> are the Unicode database as \<^verbatim>\<open>int()\<close> reads
  it (\<^verbatim>\<open>Py_UNICODE_ISSPACE\<close>, \<^verbatim>\<open>Py_UNICODE_TODECIMAL\<close>); \<open>float_repr\<close> is \<^verbatim>\<open>str()\<close> of a float.
\<close>

record py_env =
  unicode_isspace :: "nat \<Rightarrow> bool"
  unicode_todecimal :: "nat \<Rightarrow> nat option"
  float_repr :: "pyfloat \<Rightarrow> str"

subsection \<open>\<^verbatim>\<open>int(s, base)\<close>\<close>

text \<open>
  \<^verbatim>\<open>int(str, base)\<close> is CPython's \<^verbatim>\<open>PyLong_FromUnicodeObject\<close>. A string with a character
  beyond ASCII is first rewritten: Unicode blanks become a space, Unicode decimal
  digits their ASCII digit, and the text is cut after the first other character, which
  becomes a question mark.
\<close>

fun transform_decimal_and_space :: "py_env \<Rightarrow> str \<Rightarrow> str" where
  "transform_decimal_and_space env [] = []"
| "transform_decimal_and_space env (ch # cs) =
     (if ch < 127 then ch # transform_decimal_and_space env cs
      else if unicode_isspace env ch then 32 # transform_decimal_and_space env cs
      else (case unicode_todecimal env ch of
              None \<Rightarrow> [63]
            | Some d \<Rightarrow> (48 + d) # transform_decimal_and_space env cs))"

definition to_ascii :: "py_env \<Rightarrow> str \<Rightarrow> str" where
  "to_ascii env s = (if list_all (\<lambda>ch. ch < 128) s then s else transform_decimal_and_space env s)"

text \<open>
  Then \<^verbatim>\<open>PyLong_FromString\<close> reads the ASCII text: the base is 0 or within 2..36; blanks
  around the literal are skipped; an optional sign; with base 0 the prefix chooses the
  base; a prefix \<^verbatim>\<open>0x\<close>, \<^verbatim>\<open>0o\<close>, \<^verbatim>\<open>0b\<close> that matches the base is skipped, and one underscore
  after it; the digits may hold single underscores between them. Every failure is a
  \<^verbatim>\<open>ValueError\<close>.
\<close>

definition py_isspace :: "nat \<Rightarrow> bool" where
  "py_isspace c = (c \<in> {9, 10, 11, 12, 13, 32})"

text \<open>
  The scanning loop of \<^verbatim>\<open>long_from_string_base\<close>: \<open>prev\<close> is the character before,
  \<open>acc\<close> the value of the digits read so far. It returns the value and the text from the
  first character that is neither a digit of the base nor an underscore; two
  underscores in a row and an underscore at the end are errors.
\<close>

fun scan_digits :: "nat \<Rightarrow> nat \<Rightarrow> nat \<Rightarrow> str \<Rightarrow> (nat \<times> str) option" where
  "scan_digits base prev acc [] = (if prev = of_char (CHR ''_'') then None else Some (acc, []))"
| "scan_digits base prev acc (c # cs) =
     (if c = of_char (CHR ''_'') then
        (if prev = of_char (CHR ''_'') then None else scan_digits base c acc cs)
      else if digit_value c < base then
        scan_digits base c (acc * base + digit_value c) cs
      else if prev = of_char (CHR ''_'') then None
      else Some (acc, c # cs))"

definition strip_sign :: "str \<Rightarrow> int \<times> str" where
  "strip_sign s =
     (case s of
        c # cs \<Rightarrow>
          if c = of_char (CHR ''+'') then (1, cs)
          else if c = of_char (CHR ''-'') then (- 1, cs)
          else (1, s)
      | [] \<Rightarrow> (1, s))"

text \<open>\<^verbatim>\<open>str[0] == ch\<close>, and \<^verbatim>\<open>str[1]\<close> compared with a prefix letter in either case.\<close>

definition first_is :: "str \<Rightarrow> char \<Rightarrow> bool" where
  "first_is s ch = (case s of c # _ \<Rightarrow> c = of_char ch | [] \<Rightarrow> False)"

definition second_is :: "str \<Rightarrow> char \<Rightarrow> char \<Rightarrow> bool" where
  "second_is s lo up = (case s of _ # c # _ \<Rightarrow> c = of_char lo \<or> c = of_char up | _ \<Rightarrow> False)"

text \<open>Base 0: the base the literal's prefix names, and whether only zero is allowed.\<close>

definition detect_base :: "str \<Rightarrow> nat \<times> bool" where
  "detect_base s =
     (if \<not> first_is s (CHR ''0'') then (10, False)
      else if second_is s (CHR ''x'') (CHR ''X'') then (16, False)
      else if second_is s (CHR ''o'') (CHR ''O'') then (8, False)
      else if second_is s (CHR ''b'') (CHR ''B'') then (2, False)
      else (10, True))"

definition skip_prefix :: "nat \<Rightarrow> str \<Rightarrow> str" where
  "skip_prefix base s =
     (if first_is s (CHR ''0'') \<and>
         ((base = 16 \<and> second_is s (CHR ''x'') (CHR ''X'')) \<or>
          (base = 8 \<and> second_is s (CHR ''o'') (CHR ''O'')) \<or>
          (base = 2 \<and> second_is s (CHR ''b'') (CHR ''B'')))
      then (let t = drop 2 s in if first_is t (CHR ''_'') then drop 1 t else t)
      else s)"

definition py_int :: "py_env \<Rightarrow> str \<Rightarrow> int \<Rightarrow> py_exc + int" where
  "py_int env s base =
     (if (base \<noteq> 0 \<and> base < 2) \<or> 36 < base then Inl ValueError
      else
        let (sign, s1) = strip_sign (dropWhile py_isspace (to_ascii env s));
            (base', error_if_nonzero) = (if base = 0 then detect_base s1 else (nat base, False));
            s2 = skip_prefix base' s1
        in if first_is s2 (CHR ''_'') then Inl ValueError
           else (case scan_digits base' 0 0 s2 of
                   None \<Rightarrow> Inl ValueError
                 | Some (z, rest) \<Rightarrow>
                     if error_if_nonzero \<and> z \<noteq> 0 then Inl ValueError
                     else if rest = s2 then Inl ValueError
                     else if dropWhile py_isspace rest \<noteq> [] then Inl ValueError
                     else Inr (sign * int z)))"

section \<open>The endpoints\<close>

subsection \<open>\<^verbatim>\<open>convert_integer\<close> (lines 46-72)\<close>

record ConvertIntRequest =
  number :: str
  from_base :: int
  to_base :: int

text \<open>
  The returned dictionary; its keys \<^verbatim>\<open>from_base\<close> and \<^verbatim>\<open>to_base\<close> are the fields
  \<open>out_from_base\<close> and \<open>out_to_base\<close>.
\<close>

record ConvertIntResponse =
  input :: str
  out_from_base :: int
  out_to_base :: int
  result :: str
  decimal_value :: int

definition convert_integer :: "py_env \<Rightarrow> ConvertIntRequest \<Rightarrow> py_exc + ConvertIntResponse" where
  "convert_integer env request =
     except_ValueError InvalidNumber
       (bind_exc (py_int env (number request) (from_base request)) (\<lambda>dv.
        bind_exc
          (if to_base request = 10 then Inr (py_str dv)
           else if to_base request = 2 then Inr (drop 2 (py_bin dv))
           else if to_base request = 8 then Inr (drop 2 (py_oct dv))
           else if to_base request = 16 then Inr (upper (drop 2 (py_hex dv)))
           else Inl (HTTPException 400 UnsupportedBase)) (\<lambda>res.
        Inr \<lparr>input = number request,
             out_from_base = from_base request,
             out_to_base = to_base request,
             result = res,
             decimal_value = dv\<rparr>)))"

subsection \<open>\<^verbatim>\<open>convert_fraction\<close> (lines 74-128)\<close>

text \<open>\<^verbatim>\<open>s.split(sep)\<close> for a one-character separator; \<open>cur\<close> is the piece being read.\<close>

fun split_on :: "nat \<Rightarrow> str \<Rightarrow> str \<Rightarrow> str list" where
  "split_on sep cur [] = [cur]"
| "split_on sep cur (c # cs) =
     (if c = sep then cur # split_on sep [] cs else split_on sep (cur @ [c]) cs)"

text \<open>
  Lines 90-93, the loop over \<^verbatim>\<open>enumerate(fraction_part)\<close>: \<open>i\<close> is the index, \<open>dec_frac\<close> the
  accumulator. It runs after \<^verbatim>\<open>int(integer_part, from_base)\<close> has returned, so the base
  is 0 or within 2..36.
\<close>

fun fraction_value :: "py_env \<Rightarrow> int \<Rightarrow> nat \<Rightarrow> pyfloat \<Rightarrow> str \<Rightarrow> py_exc + pyfloat" where
  "fraction_value env base i dec_frac [] = Inr dec_frac"
| "fraction_value env base i dec_frac (digit # rest) =
     (case py_int env [digit] base of
        Inl e \<Rightarrow> Inl e
      | Inr val \<Rightarrow>
          (case pow_neg (nat base) (i + 1) of
             Inl e \<Rightarrow> Inl e
           | Inr p \<Rightarrow>
               (case int_to_float val of
                  Inl e \<Rightarrow> Inl e
                | Inr v \<Rightarrow> fraction_value env base (i + 1) (fadd dec_frac (fmul v p)) rest)))"

text \<open>
  Lines 116-119 append the digit's character. Lines 113-121 are one pass of the digit
  loop: it returns the digit taken, the remaining fraction, and the text with the
  digit's character appended.
\<close>

definition append_digit :: "int \<Rightarrow> str \<Rightarrow> py_exc + str" where
  "append_digit digit res_frac =
     (if 10 \<le> digit
      then bind_exc (py_chr (of_char (CHR ''A'') + digit - 10)) (\<lambda>c. Inr (res_frac @ [c]))
      else Inr (res_frac @ py_str digit))"

definition fraction_step :: "int \<Rightarrow> pyfloat \<Rightarrow> str \<Rightarrow> py_exc + (int \<times> pyfloat \<times> str)" where
  "fraction_step base current_frac res_frac =
     bind_exc (int_to_float base) (\<lambda>t.
     let scaled = fmul current_frac t in
     bind_exc (float_to_int scaled) (\<lambda>digit.
     bind_exc (append_digit digit res_frac) (\<lambda>res_frac'.
     bind_exc (int_to_float digit) (\<lambda>d.
     Inr (digit, fsub scaled d, res_frac')))))"

text \<open>Lines 112-123: at most \<open>n\<close> passes, ended early when the remaining fraction is zero.\<close>

fun fraction_digits :: "nat \<Rightarrow> int \<Rightarrow> pyfloat \<Rightarrow> str \<Rightarrow> py_exc + str" where
  "fraction_digits 0 base current_frac res_frac = Inr res_frac"
| "fraction_digits (Suc n) base current_frac res_frac =
     (case fraction_step base current_frac res_frac of
        Inl e \<Rightarrow> Inl e
      | Inr (digit, current_frac', res_frac') \<Rightarrow>
          if float_is_zero current_frac' then Inr res_frac'
          else fraction_digits n base current_frac' res_frac')"

record ConvertFractionRequest = ConvertIntRequest +
  precision :: int

text \<open>The value returned is the string under the key \<^verbatim>\<open>result\<close>.\<close>

definition convert_fraction :: "py_env \<Rightarrow> ConvertFractionRequest \<Rightarrow> py_exc + str" where
  "convert_fraction env request =
     (let replaced = map (\<lambda>c. if c = of_char (CHR '','') then of_char (CHR ''.'') else c)
                       (number request);
          num_str = (if of_char (CHR ''.'') \<notin> set replaced then replaced @ lit ''.0''
                     else replaced);
          parts = split_on (of_char (CHR ''.'')) [] num_str
      in case parts of
           integer_part # fraction_part # _ \<Rightarrow>
             except_ValueError InvalidFraction
               (bind_exc (py_int env integer_part (from_base request)) (\<lambda>dec_int.
                bind_exc (fraction_value env (from_base request) 0 (Finite False 0) fraction_part)
                  (\<lambda>dec_frac.
                bind_exc (int_to_float dec_int) (\<lambda>dec_int_f.
                let full_decimal = fadd dec_int_f dec_frac in
                if to_base request = 10 then Inr (float_repr env full_decimal)
                else
                  let res_int =
                        (if to_base request = 2 then drop 2 (py_bin dec_int)
                         else if to_base request = 8 then drop 2 (py_oct dec_int)
                         else if to_base request = 16 then upper (drop 2 (py_hex dec_int))
                         else py_str dec_int)
                  in bind_exc
                       (fraction_digits (nat (precision request)) (to_base request) dec_frac [])
                       (\<lambda>res_frac. Inr (res_int @ lit ''.'' @ res_frac))))))
         | _ \<Rightarrow> Inl IndexError)"

subsection \<open>\<^verbatim>\<open>binary_arithmetic\<close> (lines 130-147)\<close>

record ArithmeticRequest =
  a :: int
  b :: int
  operation :: str

record ArithmeticResponse =
  result_bin :: str
  result_dec :: int

definition binary_arithmetic :: "ArithmeticRequest \<Rightarrow> py_exc + ArithmeticResponse" where
  "binary_arithmetic request =
     bind_exc
       (if operation request = lit ''add'' then Inr (a request + b request)
        else if operation request = lit ''sub'' then Inr (a request - b request)
        else if operation request = lit ''mul'' then Inr (a request * b request)
        else Inl (HTTPException 400 InvalidOperation)) (\<lambda>res_dec.
     let res_bin = (if 0 \<le> res_dec then drop 2 (py_bin res_dec)
                    else lit ''-'' @ drop 2 (py_bin \<bar>res_dec\<bar>))
     in Inr \<lparr>result_bin = res_bin, result_dec = res_dec\<rparr>)"

subsection \<open>\<^verbatim>\<open>float_to_ieee754\<close> (lines 150-164)\<close>

text \<open>
  \<^verbatim>\<open>struct.pack('!f', x)\<close>: the float is rounded to binary32; a finite float that rounds to
  an infinity is an \<^verbatim>\<open>OverflowError\<close>. The result is the sign bit, the biased exponent and
  the fraction field, stored as four bytes, the most significant first.
\<close>

definition binary32_fields :: "pyfloat \<Rightarrow> py_exc + (nat \<times> nat \<times> nat)" where
  "binary32_fields x =
     (case x of
        Finite s m \<Rightarrow>
          (let y = round32 m in
           if 2 ^ 128 \<le> y then Inl OverflowError
           else if y < 2 powi (- 126)
             then Inr (of_bool s, 0, nat \<lfloor>y / 2 powi (- 149)\<rfloor>)
           else Inr (of_bool s, nat (ilog2 y + 127),
                     nat \<lfloor>y / 2 powi (ilog2 y - 23)\<rfloor> - 2 ^ 23))
      | Infinity s \<Rightarrow> Inr (of_bool s, 255, 0)
      | NaN s \<Rightarrow> Inr (of_bool s, 255, 2 ^ 22))"

definition pack_f :: "pyfloat \<Rightarrow> py_exc + nat list" where
  "pack_f x =
     bind_exc (binary32_fields x) (\<lambda>(sign, expo, frac).
     let w = sign * 2 ^ 31 + expo * 2 ^ 23 + frac
     in Inr [w div 2 ^ 24, w div 2 ^ 16 mod 256, w div 2 ^ 8 mod 256, w mod 256])"

text \<open>\<^verbatim>\<open>f'{b:08b}'\<close> of a byte, and \<^verbatim>\<open>bytes.hex()\<close>.\<close>

definition format_08b :: "nat \<Rightarrow> str" where
  "format_08b n = (let d = to_digits 2 n in replicate (8 - length d) (of_char (CHR ''0'')) @ d)"

definition bytes_hex :: "nat list \<Rightarrow> str" where
  "bytes_hex bs = concat (map (\<lambda>n. [digit_char (n div 16), digit_char (n mod 16)]) bs)"

record IEEE754Response =
  binary :: str
  hex :: str

text \<open>The request has the one field \<^verbatim>\<open>number\<close>, which is the argument here.\<close>

definition float_to_ieee754 :: "pyfloat \<Rightarrow> py_exc + IEEE754Response" where
  "float_to_ieee754 x =
     bind_exc (pack_f x) (\<lambda>packed.
     let integers = packed;
         binary_str = concat (map format_08b integers);
         hex_str = upper (bytes_hex packed)
     in case binary_str of
          [] \<Rightarrow> Inl IndexError
        | c # _ \<Rightarrow>
            Inr \<lparr>binary = [c] @ lit '' '' @ take 8 (drop 1 binary_str) @ lit '' '' @
                           drop 9 binary_str,
                 hex = hex_str\<rparr>)"

subsection \<open>\<^verbatim>\<open>ascii_encoder\<close> (lines 166-180)\<close>

text \<open>
  One entry of the list under \<^verbatim>\<open>data\<close>; its keys \<^verbatim>\<open>char\<close>, \<^verbatim>\<open>dec\<close>, \<^verbatim>\<open>hex\<close>, \<^verbatim>\<open>bin\<close> are the
  fields below (\<^verbatim>\<open>hex\<close> is \<open>hex_code\<close>, the name being taken).
\<close>

record AsciiEntry =
  char :: str
  dec :: int
  hex_code :: str
  bin :: str

text \<open>The loop of lines 172-179; \<open>acc\<close> is the list \<^verbatim>\<open>result\<close>.\<close>

fun ascii_loop :: "AsciiEntry list \<Rightarrow> str \<Rightarrow> AsciiEntry list" where
  "ascii_loop acc [] = acc"
| "ascii_loop acc (ch # rest) =
     (let code = int ch
      in ascii_loop
           (acc @ [\<lparr>char = [ch],
                    dec = code,
                    hex_code = upper (drop 2 (py_hex code)),
                    bin = zfill 8 (drop 2 (py_bin code))\<rparr>])
           rest)"

text \<open>
  The request has the one field \<^verbatim>\<open>text\<close>, which is the argument here; the value returned
  is the list under the key \<^verbatim>\<open>data\<close>.
\<close>

definition ascii_encoder :: "str \<Rightarrow> py_exc + AsciiEntry list" where
  "ascii_encoder txt = Inr (ascii_loop [] txt)"

subsection \<open>An interpreter for concrete requests\<close>

text \<open>
  The statements below hold for every \<open>py_env\<close>. Where one is evaluated on a concrete
  ASCII request, the interpreter is \<open>ascii_env\<close>, whose Unicode tables are empty.
\<close>

definition ascii_env :: py_env where
  "ascii_env = \<lparr>unicode_isspace = (\<lambda>ch. False), unicode_todecimal = (\<lambda>ch. None),
                 float_repr = (\<lambda>x. [])\<rparr>"

section \<open>What a digit string denotes\<close>

text \<open>
  The specification speaks of "the digit string of a value in a base". \<open>digits_value\<close>
  reads a digit string positionally; \<open>canonical\<close> says that a string is written with
  the digits of the base as \<^verbatim>\<open>bin\<close>, \<^verbatim>\<open>oct\<close>, \<^verbatim>\<open>hex\<close> and \<^verbatim>\<open>str\<close> write them, and has no leading
  zero unless it is the single digit 0. A value has exactly one canonical string.
\<close>

definition digits_value :: "nat \<Rightarrow> str \<Rightarrow> nat" where
  "digits_value base s = foldl (\<lambda>acc c. acc * base + digit_value c) 0 s"

definition canonical :: "nat \<Rightarrow> str \<Rightarrow> bool" where
  "canonical base s =
     (s \<noteq> [] \<and> list_all (\<lambda>c. digit_value c < base \<and> digit_char (digit_value c) = c) s \<and>
      (s = [48] \<or> hd s \<noteq> 48))"


definition canonical_upper :: "nat \<Rightarrow> str \<Rightarrow> bool" where
  "canonical_upper base s =
     (s \<noteq> [] \<and>
      list_all (\<lambda>c. digit_value c < base \<and> upper_char (digit_char (digit_value c)) = c) s \<and>
      (s = [48] \<or> hd s \<noteq> 48))"

text \<open>
  For floats: \<open>ulp64 x\<close> is the unit in the last place of binary64 at \<open>x\<close>, so that
  \<open>round64 x\<close> is the multiple of \<open>ulp64 x\<close> nearest to \<open>x\<close>. A magnitude \<open>m\<close> is a binary64
  number when \<open>round64 m = m\<close>. \<open>unit_fraction\<close> says that a float is a binary64 number in
  the interval from 0 (of either sign) up to, and without, 1.
\<close>

definition ulp64 :: "rat \<Rightarrow> rat" where
  "ulp64 x = 2 powi (max (ilog2 x) (- 1022) - 52)"

definition unit_fraction :: "pyfloat \<Rightarrow> bool" where
  "unit_fraction x =
     (case x of
        Finite s m \<Rightarrow> 0 \<le> m \<and> m < 1 \<and> round64 m = m \<and> (s \<longrightarrow> m = 0)
      | _ \<Rightarrow> False)"

section \<open>Digits written and read back\<close>

lemma digit_value_digit_char: "d < 36 \<Longrightarrow> digit_value (digit_char d) = d"
  by (auto simp: digit_value_def digit_char_def)

lemma digits_value_snoc: "digits_value base (s @ [c]) = digits_value base s * base + digit_value c"
  by (simp add: digits_value_def)

lemma digits_value_to_digits:
  "2 \<le> base \<Longrightarrow> base \<le> 36 \<Longrightarrow> digits_value base (to_digits base n) = n"
proof (induction base n rule: to_digits.induct)
  case (1 base n)
  show ?case
  proof (cases "n < base")
    case True
    with 1 show ?thesis
      by (subst to_digits.simps) (simp add: digits_value_def digit_value_digit_char)
  next
    case False
    with 1 have "digits_value base (to_digits base (n div base)) = n div base" by simp
    moreover have "n mod base < base" using 1 by simp
    then have "n mod base < 36" using 1 by linarith
    ultimately show ?thesis using False 1(2,3)
      by (subst to_digits.simps) (simp add: digits_value_snoc digit_value_digit_char)
  qed
qed

lemma to_digits_nonempty: "to_digits base n \<noteq> []"
  by (subst to_digits.simps) simp

lemma to_digits_all_digits:
  "2 \<le> base \<Longrightarrow> base \<le> 36 \<Longrightarrow>
   list_all (\<lambda>c. digit_value c < base \<and> digit_char (digit_value c) = c) (to_digits base n)"
proof (induction base n rule: to_digits.induct)
  case (1 base n)
  show ?case
  proof (cases "n < base")
    case True
    with 1 show ?thesis
      by (subst to_digits.simps) (simp add: digit_value_digit_char)
  next
    case False
    have "n mod base < base" using 1 by simp
    then have "n mod base < 36" using 1 by linarith
    with False 1 \<open>n mod base < base\<close> show ?thesis
      by (subst to_digits.simps) (simp add: digit_value_digit_char)
  qed
qed

lemma hd_to_digits:
  "2 \<le> base \<Longrightarrow> base \<le> 36 \<Longrightarrow> to_digits base n = [48] \<or> hd (to_digits base n) \<noteq> 48"
proof (induction base n rule: to_digits.induct)
  case (1 base n)
  show ?case
  proof (cases "n < base")
    case True
    with 1 show ?thesis
      by (subst (1 2) to_digits.simps) (auto simp: digit_char_def)
  next
    case False
    then have pos: "0 < n div base" using 1 by (simp add: div_greater_zero_iff)
    have ih: "to_digits base (n div base) = [48] \<or> hd (to_digits base (n div base)) \<noteq> 48"
      using 1 False by simp
    have "to_digits base (n div base) \<noteq> [48]"
    proof
      assume e: "to_digits base (n div base) = [48]"
      have "digits_value base (to_digits base (n div base)) = n div base"
        using 1 by (simp add: digits_value_to_digits)
      with e pos show False by (simp add: digits_value_def digit_value_def)
    qed
    with ih have "hd (to_digits base (n div base)) \<noteq> 48" by simp
    then show ?thesis using False 1 to_digits_nonempty[of base "n div base"]
      by (subst (1 2) to_digits.simps) simp
  qed
qed

lemma canonical_to_digits: "2 \<le> base \<Longrightarrow> base \<le> 36 \<Longrightarrow> canonical base (to_digits base n)"
  using hd_to_digits[of base n] to_digits_all_digits[of base n] to_digits_nonempty[of base n]
  by (simp add: canonical_def)

lemma drop2_py_bin: "0 \<le> n \<Longrightarrow> drop 2 (py_bin n) = to_digits 2 (nat n)"
  by (simp add: py_bin_def sign_prefix_def lit_def)

lemma digit_value_upper_char: "digit_value (upper_char c) = digit_value c"
  by (auto simp: digit_value_def upper_char_def)

lemma digits_value_upper: "digits_value base (upper s) = digits_value base s"
proof -
  have "foldl (\<lambda>acc c. acc * base + digit_value c) acc (map upper_char s) =
        foldl (\<lambda>acc c. acc * base + digit_value c) acc s" for acc
    by (induction s arbitrary: acc) (simp_all add: digit_value_upper_char)
  then show ?thesis by (simp add: digits_value_def upper_def)
qed

lemma upper_char_eq_zero: "(upper_char c = 48) = (c = 48)"
  by (auto simp: upper_char_def)

lemma canonical_upper_upper:
  assumes "canonical base s"
  shows "canonical_upper base (upper s)"
proof -
  from assms obtain c cs where s: "s = c # cs" by (cases s) (auto simp: canonical_def)
  have all: "list_all (\<lambda>c. digit_value c < base \<and> digit_char (digit_value c) = c) s"
    using assms by (simp add: canonical_def)
  then have "list_all (\<lambda>c. digit_value c < base \<and> upper_char (digit_char (digit_value c)) = c)
               (map upper_char s)"
    by (induction s) (auto simp: digit_value_upper_char)
  moreover have "upper s = [48] \<or> hd (upper s) \<noteq> 48"
    using assms s by (auto simp: canonical_def upper_def upper_char_eq_zero)
  ultimately show ?thesis using s by (simp add: canonical_upper_def upper_def)
qed



text \<open>What the endpoints write for a non-negative value in a supported base.\<close>

lemma canonical_upper_written:
  "2 \<le> base \<Longrightarrow> base \<le> 36 \<Longrightarrow> canonical_upper base (upper (to_digits base n))"
  by (simp add: canonical_upper_upper canonical_to_digits)

lemma digits_value_written:
  "2 \<le> base \<Longrightarrow> base \<le> 36 \<Longrightarrow> digits_value base (upper (to_digits base n)) = n"
  by (simp add: digits_value_upper digits_value_to_digits)





section \<open>\<^verbatim>\<open>int()\<close> on digit strings\<close>


lemma digit_not_special:
  "digit_value c < base \<Longrightarrow> base \<le> 36 \<Longrightarrow>
   c \<noteq> 95 \<and> c \<noteq> 43 \<and> c \<noteq> 45 \<and> \<not> py_isspace c"
  by (auto simp: digit_value_def py_isspace_def split: if_splits)







section \<open>Claims about \<^verbatim>\<open>binary_arithmetic\<close>\<close>

text \<open>
  C4. For every integer \<open>n\<close>, of any magnitude, \<^verbatim>\<open>binary_arithmetic(n, 0, "add")\<close> returns
  \<^verbatim>\<open>result_dec\<close> equal to \<open>n\<close> and \<^verbatim>\<open>result_bin\<close> equal to the binary digit string of \<open>\<bar>n\<bar>\<close>
  (canonical, and read back it is \<open>\<bar>n\<bar>\<close>), with a minus sign before it when \<open>n\<close> is
  negative. And \<^verbatim>\<open>binary_arithmetic(5, 3, "sub")\<close> returns 2 and \<^verbatim>\<open>"10"\<close>,
  \<^verbatim>\<open>binary_arithmetic(3, 5, "sub")\<close> returns -2 and \<^verbatim>\<open>"-10"\<close>.
\<close>

theorem binary_arithmetic_add_zero:
  "binary_arithmetic \<lparr>a = n, b = 0, operation = lit ''add''\<rparr> =
     Inr \<lparr>result_bin = (if n < 0 then lit ''-'' else []) @ to_digits 2 (nat \<bar>n\<bar>),
          result_dec = n\<rparr>
   \<and> canonical 2 (to_digits 2 (nat \<bar>n\<bar>))
   \<and> digits_value 2 (to_digits 2 (nat \<bar>n\<bar>)) = nat \<bar>n\<bar>
   \<and> binary_arithmetic \<lparr>a = 5, b = 3, operation = lit ''sub''\<rparr> =
         Inr \<lparr>result_bin = lit ''10'', result_dec = 2\<rparr>
   \<and> binary_arithmetic \<lparr>a = 3, b = 5, operation = lit ''sub''\<rparr> =
         Inr \<lparr>result_bin = lit ''-10'', result_dec = - 2\<rparr>"
proof -
  have general: "binary_arithmetic \<lparr>a = n, b = 0, operation = lit ''add''\<rparr> =
     Inr \<lparr>result_bin = (if n < 0 then lit ''-'' else []) @ to_digits 2 (nat \<bar>n\<bar>),
          result_dec = n\<rparr>"
    by (simp add: binary_arithmetic_def bind_exc_def drop2_py_bin)
  have five_three: "binary_arithmetic \<lparr>a = 5, b = 3, operation = lit ''sub''\<rparr> =
         Inr \<lparr>result_bin = lit ''10'', result_dec = 2\<rparr>"
    by code_simp
  have three_five: "binary_arithmetic \<lparr>a = 3, b = 5, operation = lit ''sub''\<rparr> =
         Inr \<lparr>result_bin = lit ''-10'', result_dec = - 2\<rparr>"
    by code_simp
  show ?thesis
    using general five_three three_five
    by (simp add: canonical_to_digits digits_value_to_digits)
qed

text \<open>
  C8. \<^verbatim>\<open>binary_arithmetic\<close> fails if and only if the operation is none of \<^verbatim>\<open>"add"\<close>,
  \<^verbatim>\<open>"sub"\<close>, \<^verbatim>\<open>"mul"\<close>, and the failure is the client error (status 400) that names the
  operation; for the three operations it returns a result.
\<close>

theorem binary_arithmetic_rejects_iff:
  "(binary_arithmetic request = Inl e) =
     (operation request \<notin> {lit ''add'', lit ''sub'', lit ''mul''} \<and>
      e = HTTPException 400 InvalidOperation)
   \<and> (\<exists>r. binary_arithmetic request = Inr r) =
     (operation request \<in> {lit ''add'', lit ''sub'', lit ''mul''})"
  by (auto simp: binary_arithmetic_def bind_exc_def Let_def)

section \<open>Claims about \<^verbatim>\<open>float_to_ieee754\<close>\<close>

lemma ilog2_one: "ilog2 1 = 0"
  by code_simp

lemma round32_one: "round32 1 = 1"
  by code_simp

lemma binary32_fields_one: "binary32_fields (Finite False 1) = Inr (0, 127, 0)"
  by (simp add: binary32_fields_def round32_one ilog2_one)

lemma pack_f_one: "pack_f (Finite False 1) = Inr [63, 128, 0, 0]"
  by (simp add: pack_f_def binary32_fields_one bind_exc_def)

lemma format_08b_63: "format_08b 63 = lit ''00111111''"
  by code_simp

lemma format_08b_128: "format_08b 128 = lit ''10000000''"
  by code_simp

lemma format_08b_0: "format_08b 0 = lit ''00000000''"
  by code_simp

lemma hex_of_one: "upper (bytes_hex [63, 128, 0, 0]) = lit ''3F800000''"
  by (simp add: upper_def bytes_hex_def digit_char_def upper_char_def lit_def)

text \<open>
  C5. Encoding 1.0 yields the hex string \<^verbatim>\<open>3F800000\<close> and the binary string
  \<^verbatim>\<open>0 01111111 00000000000000000000000\<close>: the sign bit, eight exponent bits and 23
  fraction bits, separated by single spaces.
\<close>

theorem float_to_ieee754_one:
  "float_to_ieee754 (Finite False 1) =
     Inr \<lparr>binary = lit ''0 01111111 00000000000000000000000'', hex = lit ''3F800000''\<rparr>"
  by (simp add: float_to_ieee754_def pack_f_one bind_exc_def format_08b_63 format_08b_128
      format_08b_0 hex_of_one lit_def)

section \<open>Claims about \<^verbatim>\<open>convert_integer\<close>\<close>


lemma drop2_py_hex: "0 \<le> n \<Longrightarrow> drop 2 (py_hex n) = to_digits 16 (nat n)"
  by (simp add: py_hex_def sign_prefix_def lit_def)

lemma py_str_nonneg: "0 \<le> n \<Longrightarrow> py_str n = to_digits 10 (nat n)"
  by (simp add: py_str_def sign_prefix_def)


lemma py_int_minus5: "py_int ascii_env (lit ''-5'') 10 = Inr (- 5)"
  by code_simp

lemma py_int_minus255: "py_int ascii_env (lit ''-255'') 10 = Inr (- 255)"
  by code_simp

lemma bin_minus5: "drop 2 (py_bin (- 5)) = lit ''b101''"
  by (simp add: py_bin_def sign_prefix_def to_digits.simps digit_char_def lit_def)

lemma oct_minus5: "drop 2 (py_oct (- 5)) = lit ''o5''"
  by (simp add: py_oct_def sign_prefix_def to_digits.simps digit_char_def lit_def)

lemma hex_minus255: "upper (drop 2 (py_hex (- 255))) = lit ''XFF''"
  by (simp add: py_hex_def sign_prefix_def to_digits.simps digit_char_def lit_def upper_def upper_char_def)

lemma convert_integer_negative:
  assumes "py_int env s B = Inr n" "n < 0"
  shows "convert_integer env \<lparr>number = s, from_base = B, to_base = 2\<rparr> =
           Inr \<lparr>input = s, out_from_base = B, out_to_base = 2,
                result = lit ''b'' @ to_digits 2 (nat (- n)), decimal_value = n\<rparr>"
    and "convert_integer env \<lparr>number = s, from_base = B, to_base = 10\<rparr> =
           Inr \<lparr>input = s, out_from_base = B, out_to_base = 10,
                result = lit ''-'' @ to_digits 10 (nat (- n)), decimal_value = n\<rparr>"
  using assms
  by (simp_all add: convert_integer_def bind_exc_def except_ValueError_def py_bin_def py_str_def
      sign_prefix_def lit_def)

text \<open>
  C1. The claim: a digit string that parses to a negative integer is returned, for the
  target bases 2, 8 and 16, as a minus sign followed by the digits of the magnitude.
  The code slices two characters off \<^verbatim>\<open>bin(n)\<close>, \<^verbatim>\<open>oct(n)\<close>, \<^verbatim>\<open>hex(n)\<close>, which for a negative
  \<open>n\<close> are the sign and the zero of the prefix: \<^verbatim>\<open>-5\<close> to base 2 is \<^verbatim>\<open>b101\<close>, to base 8 \<^verbatim>\<open>o5\<close>,
  and \<^verbatim>\<open>-255\<close> to base 16 is \<^verbatim>\<open>XFF\<close>. (\<open>convert_integer_negative\<close> above is the general
  fact for base 2, and shows that base 10 is returned as the signed decimal string.)
\<close>

theorem convert_integer_negative_example:
  "convert_integer ascii_env \<lparr>number = lit ''-5'', from_base = 10, to_base = 2\<rparr> =
     Inr \<lparr>input = lit ''-5'', out_from_base = 10, out_to_base = 2,
          result = lit ''b101'', decimal_value = - 5\<rparr>
   \<and> convert_integer ascii_env \<lparr>number = lit ''-5'', from_base = 10, to_base = 8\<rparr> =
     Inr \<lparr>input = lit ''-5'', out_from_base = 10, out_to_base = 8,
          result = lit ''o5'', decimal_value = - 5\<rparr>
   \<and> convert_integer ascii_env \<lparr>number = lit ''-255'', from_base = 10, to_base = 16\<rparr> =
     Inr \<lparr>input = lit ''-255'', out_from_base = 10, out_to_base = 16,
          result = lit ''XFF'', decimal_value = - 255\<rparr>"
  by (simp add: convert_integer_def bind_exc_def except_ValueError_def py_int_minus5
      py_int_minus255 bin_minus5 oct_minus5 hex_minus255)











section \<open>Claims about \<^verbatim>\<open>ascii_encoder\<close>\<close>

lemma ascii_loop_map:
  "ascii_loop acc ts =
     acc @ map (\<lambda>ch. \<lparr>char = [ch], dec = int ch,
                        hex_code = upper (drop 2 (py_hex (int ch))),
                        bin = zfill 8 (drop 2 (py_bin (int ch)))\<rparr>) ts"
  by (induction ts arbitrary: acc) (simp_all add: Let_def)

lemma zfill_digits:
  assumes "canonical 2 ds"
  shows "zfill 8 ds = replicate (8 - length ds) 48 @ ds"
proof (cases "8 \<le> length ds")
  case True
  then show ?thesis by (simp add: zfill_def)
next
  case False
  from assms obtain c cs where ds: "ds = c # cs" by (cases ds) (auto simp: canonical_def)
  with assms have "digit_value c < 2" by (simp add: canonical_def)
  then have "c \<noteq> 43 \<and> c \<noteq> 45" using digit_not_special[of c 2] by simp
  with False ds show ?thesis by (simp add: zfill_def)
qed

lemma digits_value_less:
  assumes "1 \<le> base" "list_all (\<lambda>c. digit_value c < base) s"
  shows "foldl (\<lambda>acc c. acc * base + digit_value c) acc s < (acc + 1) * base ^ length s"
  using assms(2)
proof (induction s arbitrary: acc)
  case Nil
  show ?case by simp
next
  case (Cons c cs)
  then have c: "digit_value c + 1 \<le> base" and cs: "list_all (\<lambda>c. digit_value c < base) cs"
    by simp_all
  have "foldl (\<lambda>acc c. acc * base + digit_value c) (acc * base + digit_value c) cs
          < (acc * base + digit_value c + 1) * base ^ length cs"
    by (rule Cons.IH[OF cs])
  also have "\<dots> \<le> ((acc + 1) * base) * base ^ length cs"
    using c by (intro mult_le_mono1) (simp add: algebra_simps)
  finally show ?case by (simp add: algebra_simps)
qed

lemma wide_code_point:
  assumes "255 < ch"
  shows "8 < length (to_digits 2 ch)"
proof (rule ccontr)
  assume "\<not> 8 < length (to_digits 2 ch)"
  then have len: "length (to_digits 2 ch) \<le> 8" by simp
  have "list_all (\<lambda>c. digit_value c < 2) (to_digits 2 ch)"
    using to_digits_all_digits[of 2 ch] by (simp add: list_all_iff)
  then have "digits_value 2 (to_digits 2 ch) < (0 + 1) * 2 ^ length (to_digits 2 ch)"
    unfolding digits_value_def by (intro digits_value_less) simp_all
  then have "ch < 2 ^ length (to_digits 2 ch)" by (simp add: digits_value_to_digits)
  also have "\<dots> \<le> (2::nat) ^ 8" using len by (intro power_increasing) simp_all
  finally show False using assms by simp
qed

text \<open>
  C10. \<^verbatim>\<open>ascii_encoder\<close> never raises: for every text, wide characters included, it
  returns one entry per character, in order, with the character, its code point, the
  code point's upper-case hexadecimal string without padding, and its binary string
  padded with zeros to at least eight characters. The hexadecimal and binary strings
  are canonical and read back as the code point; for a code point above 255 the binary
  string is longer than eight characters.
\<close>

theorem ascii_encoder_total:
  "ascii_encoder ts =
     Inr (map (\<lambda>ch. \<lparr>char = [ch], dec = int ch,
                       hex_code = upper (to_digits 16 ch),
                       bin = replicate (8 - length (to_digits 2 ch)) 48 @ to_digits 2 ch\<rparr>) ts)
   \<and> canonical_upper 16 (upper (to_digits 16 ch))
   \<and> digits_value 16 (upper (to_digits 16 ch)) = ch
   \<and> canonical 2 (to_digits 2 ch)
   \<and> digits_value 2 (to_digits 2 ch) = ch
   \<and> 8 \<le> length (replicate (8 - length (to_digits 2 ch)) 48 @ to_digits 2 ch)
   \<and> (255 < ch \<longrightarrow> 8 < length (to_digits 2 ch))"
proof -
  have row: "zfill 8 (drop 2 (py_bin (int c))) = replicate (8 - length (to_digits 2 c)) 48 @ to_digits 2 c"
    for c
    by (simp add: drop2_py_bin zfill_digits canonical_to_digits)
  have "ascii_encoder ts =
     Inr (map (\<lambda>ch. \<lparr>char = [ch], dec = int ch,
                       hex_code = upper (to_digits 16 ch),
                       bin = replicate (8 - length (to_digits 2 ch)) 48 @ to_digits 2 ch\<rparr>) ts)"
    by (simp add: ascii_encoder_def ascii_loop_map drop2_py_hex row)
  then show ?thesis
    by (simp add: canonical_upper_written digits_value_written canonical_to_digits
        digits_value_to_digits wide_code_point)
qed

lemma to_digits_euro: "to_digits 2 8364 = lit ''10000010101100''"
  by (simp add: to_digits.simps digit_char_def lit_def)

lemma to_digits_euro_hex: "upper (to_digits 16 8364) = lit ''20AC''"
  by (simp add: to_digits.simps digit_char_def upper_def upper_char_def lit_def)

theorem ascii_encoder_total_witness:
  "ascii_encoder [8364] =
     Inr [\<lparr>char = [8364], dec = 8364, hex_code = lit ''20AC'', bin = lit ''10000010101100''\<rparr>]
   \<and> (255::nat) < 8364 \<and> 8 < length (lit ''10000010101100'')"
  using ascii_encoder_total[of "[8364]" 8364]
  by (simp add: to_digits_euro to_digits_euro_hex lit_def)

section \<open>Rounding to binary64\<close>

subsection \<open>Powers of two and the exponent of a rational\<close>

lemma pow2_add: "(2::rat) powi (i + j) = 2 powi i * 2 powi j"
  by (simp add: power_int_add)

lemma pow2_mono: "i \<le> j \<Longrightarrow> (2::rat) powi i \<le> 2 powi j"
  by (rule power_int_increasing) simp_all

lemma pow2_strict_mono: "i < j \<Longrightarrow> (2::rat) powi i < 2 powi j"
  by (rule power_int_strict_increasing) simp_all

lemma pow2_less_cancel: "(2::rat) powi i < 2 powi j \<Longrightarrow> i < j"
  using pow2_mono[of j i] by (cases "i < j") auto

lemma pow2_Suc: "(2::rat) powi (i + 1) = 2 * 2 powi i"
  by (simp add: power_int_add)

lemma bitlen_powi:
  assumes "0 < k"
  shows "2 powi (bitlen k - 1) \<le> (of_int k :: rat)" and "(of_int k :: rat) < 2 powi (bitlen k)"
proof -
  from assms have b: "1 \<le> bitlen k" by (auto simp: bitlen_alt_def)
  from bitlen_bounds[OF assms]
  have lo: "2 ^ nat (bitlen k - 1) \<le> k" and hi: "k < 2 ^ nat (bitlen k)" by simp_all
  have "(2::rat) powi (bitlen k - 1) = 2 ^ nat (bitlen k - 1)"
    using b by (simp add: power_int_nonneg_exp)
  also have "\<dots> = of_int (2 ^ nat (bitlen k - 1))" by simp
  also have "\<dots> \<le> of_int k" using lo by (simp only: of_int_le_iff)
  finally show "2 powi (bitlen k - 1) \<le> (of_int k :: rat)" .
  have "(of_int k :: rat) < of_int (2 ^ nat (bitlen k))" using hi by (simp only: of_int_less_iff)
  also have "\<dots> = 2 ^ nat (bitlen k)" by simp
  also have "\<dots> = 2 powi (bitlen k)" using b by (simp add: power_int_nonneg_exp)
  finally show "(of_int k :: rat) < 2 powi (bitlen k)" .
qed

lemma ilog2_bounds:
  assumes "0 < x"
  shows "2 powi (ilog2 x) \<le> x" and "x < 2 powi (ilog2 x + 1)"
proof -
  obtain p q where pq: "quotient_of x = (p, q)" by force
  have q: "0 < q" using quotient_of_denom_pos[OF pq] .
  have x: "x = of_int p / of_int q" using quotient_of_div[OF pq] .
  have p: "0 < p" using assms q x by (simp add: zero_less_divide_iff)
  define d where "d = bitlen p - bitlen q"
  have Q: "(0::rat) < of_int q" using q by simp
  have xq: "x * of_int q = of_int p" using x q by simp
  have "2 powi (d - 1) * (of_int q :: rat) < 2 powi (d - 1) * 2 powi (bitlen q)"
    using bitlen_powi(2)[OF q] by (intro mult_strict_left_mono) simp_all
  also have "\<dots> = 2 powi (bitlen p - 1)" by (simp add: d_def flip: pow2_add)
  also have "\<dots> \<le> of_int p" by (rule bitlen_powi(1)[OF p])
  also have "\<dots> = x * of_int q" using xq by simp
  finally have lo: "2 powi (d - 1) < x" using Q by (simp only: mult_less_cancel_right_pos)
  have "x * of_int q = of_int p" by (rule xq)
  also have "\<dots> < 2 powi (bitlen p)" by (rule bitlen_powi(2)[OF p])
  also have "\<dots> = 2 powi (d + 1) * 2 powi (bitlen q - 1)" by (simp add: d_def flip: pow2_add)
  also have "\<dots> \<le> 2 powi (d + 1) * of_int q"
    using bitlen_powi(1)[OF q] by (intro mult_left_mono) simp_all
  finally have hi: "x < 2 powi (d + 1)" using Q by (simp only: mult_less_cancel_right_pos)
  have il: "ilog2 x = (if 2 powi d \<le> x then d else d - 1)"
    by (simp add: ilog2_def pq d_def Let_def)
  show "2 powi (ilog2 x) \<le> x" using lo by (simp add: il)
  show "x < 2 powi (ilog2 x + 1)" using hi by (auto simp: il not_le)
qed

lemma ilog2_unique:
  assumes "2 powi e \<le> x" "x < 2 powi (e + 1)"
  shows "ilog2 x = e"
proof -
  have pos: "0 < x" using assms(1) by (rule less_le_trans[rotated]) simp
  from ilog2_bounds[OF pos] assms
  have "(2::rat) powi (ilog2 x) < 2 powi (e + 1)" "(2::rat) powi e < 2 powi (ilog2 x + 1)"
    by (meson le_less_trans)+
  then have "ilog2 x < e + 1" "e < ilog2 x + 1" by (auto dest: pow2_less_cancel)
  then show ?thesis by simp
qed

lemma ilog2_mono:
  assumes "0 < x" "x \<le> y"
  shows "ilog2 x \<le> ilog2 y"
proof -
  have y: "0 < y" using assms by simp
  have "2 powi (ilog2 x) \<le> x" by (rule ilog2_bounds(1)[OF assms(1)])
  also have "x \<le> y" by fact
  also have "y < 2 powi (ilog2 y + 1)" by (rule ilog2_bounds(2)[OF y])
  finally have "ilog2 x < ilog2 y + 1" by (rule pow2_less_cancel)
  then show ?thesis by simp
qed

lemma ilog2_pow2: "ilog2 (2 powi e) = e"
  by (rule ilog2_unique) (simp_all add: pow2_strict_mono)

lemma round_half_even_of_int: "round_half_even (of_int k) = k"
  by (simp add: round_half_even_def)

lemma round_half_even_down:
  assumes "0 \<le> r" "r < 1 / 2"
  shows "round_half_even (of_int k + r) = k"
proof -
  have f: "\<lfloor>of_int k + r\<rfloor> = k" using assms by (intro floor_unique) simp_all
  show ?thesis using assms by (simp add: round_half_even_def f)
qed

lemma round_half_even_cases:
  "round_half_even x = \<lfloor>x\<rfloor> \<and> x - of_int \<lfloor>x\<rfloor> \<le> 1 / 2
   \<or> round_half_even x = \<lfloor>x\<rfloor> + 1 \<and> 1 / 2 \<le> x - of_int \<lfloor>x\<rfloor>"
  by (simp add: round_half_even_def Let_def)

lemma round_half_even_cases_rat:
  "(of_int (round_half_even x) :: rat) = of_int \<lfloor>x\<rfloor> \<and> x - of_int \<lfloor>x\<rfloor> \<le> 1 / 2
   \<or> (of_int (round_half_even x) :: rat) = of_int \<lfloor>x\<rfloor> + 1 \<and> 1 / 2 \<le> x - of_int \<lfloor>x\<rfloor>"
  using round_half_even_cases[of x] by auto

lemma round_half_even_bounds:
  "of_int (round_half_even x) \<le> x + 1 / 2" "x - 1 / 2 \<le> of_int (round_half_even x)"
proof -
  have fl: "of_int \<lfloor>x\<rfloor> \<le> x" "x < of_int \<lfloor>x\<rfloor> + 1" by linarith+
  have "of_int (round_half_even x) \<le> x + 1 / 2 \<and> x - 1 / 2 \<le> of_int (round_half_even x)"
  proof (rule disjE[OF round_half_even_cases_rat[of x]])
    assume "(of_int (round_half_even x) :: rat) = of_int \<lfloor>x\<rfloor> \<and> x - of_int \<lfloor>x\<rfloor> \<le> 1 / 2"
    then show ?thesis using fl by (elim conjE) linarith
  next
    assume "(of_int (round_half_even x) :: rat) = of_int \<lfloor>x\<rfloor> + 1 \<and> 1 / 2 \<le> x - of_int \<lfloor>x\<rfloor>"
    then show ?thesis using fl by (elim conjE) linarith
  qed
  then show "of_int (round_half_even x) \<le> x + 1 / 2" "x - 1 / 2 \<le> of_int (round_half_even x)"
    by simp_all
qed

lemma round_half_even_mono:
  assumes "x \<le> y"
  shows "round_half_even x \<le> round_half_even y"
proof (cases "\<lfloor>x\<rfloor> = \<lfloor>y\<rfloor>")
  case True
  then show ?thesis using assms by (auto simp: round_half_even_def Let_def)
next
  case False
  then have "\<lfloor>x\<rfloor> + 1 \<le> \<lfloor>y\<rfloor>" using floor_mono[OF assms] by simp
  moreover have "round_half_even x \<le> \<lfloor>x\<rfloor> + 1" by (simp add: round_half_even_def Let_def)
  moreover have "\<lfloor>y\<rfloor> \<le> round_half_even y" by (simp add: round_half_even_def Let_def)
  ultimately show ?thesis by linarith
qed

lemma round_half_even_nonneg: "0 \<le> x \<Longrightarrow> 0 \<le> round_half_even x"
  using round_half_even_mono[of 0 x] round_half_even_of_int[of 0] by simp

subsection \<open>Rounding is monotone and leaves binary64 numbers alone\<close>

lemma round64_alt: "round64 x = of_int (round_half_even (x / ulp64 x)) * ulp64 x"
  by (simp add: round64_def round_to_format_def ulp64_def Let_def)

lemma ulp64_pos: "0 < ulp64 x"
  by (simp add: ulp64_def)

lemma round64_zero: "round64 0 = 0"
  by (simp add: round64_alt round_half_even_def)

lemma round64_nonneg: "0 \<le> x \<Longrightarrow> 0 \<le> round64 x"
  using round_half_even_nonneg[of "x / ulp64 x"] ulp64_pos[of x]
  by (simp add: round64_alt)

lemma pow2_shift_53: "2 ^ 53 * 2 powi (E - 52) = (2::rat) powi (E + 1)"
  using pow2_add[of 53 "E - 52"] by (simp add: algebra_simps)

lemma pow2_shift_52: "2 ^ 52 * 2 powi (E - 52) = (2::rat) powi E"
  using pow2_add[of 52 "E - 52"] by (simp add: algebra_simps)

lemma scaled_less:
  assumes "0 < x"
  shows "x / ulp64 x < 2 ^ 53"
proof -
  let ?E = "max (ilog2 x) (- 1022)"
  have "x < 2 powi (ilog2 x + 1)" by (rule ilog2_bounds(2)[OF assms])
  also have "\<dots> \<le> 2 powi (?E + 1)" by (rule pow2_mono) simp
  also have "\<dots> = 2 ^ 53 * 2 powi (?E - 52)" by (simp only: pow2_shift_53)
  finally have "x < 2 ^ 53 * ulp64 x" by (simp only: ulp64_def)
  then show ?thesis using ulp64_pos[of x] by (simp add: pos_divide_less_eq)
qed

lemma scaled_ge:
  assumes "0 < x" "- 1022 \<le> ilog2 x"
  shows "2 ^ 52 \<le> x / ulp64 x"
proof -
  have "2 ^ 52 * 2 powi (ilog2 x - 52) = (2::rat) powi (ilog2 x)" by (rule pow2_shift_52)
  also have "\<dots> \<le> x" by (rule ilog2_bounds(1)[OF assms(1)])
  finally have "2 ^ 52 * 2 powi (ilog2 x - 52) \<le> x" .
  moreover have "ulp64 x = 2 powi (ilog2 x - 52)" using assms(2) by (simp add: ulp64_def max_def)
  ultimately have "2 ^ 52 * ulp64 x \<le> x" by simp
  then show ?thesis using ulp64_pos[of x] by (simp add: pos_le_divide_eq)
qed

lemma round64_le_pow:
  assumes "0 < x"
  shows "round64 x \<le> 2 powi (max (ilog2 x) (- 1022) + 1)"
proof -
  have "round_half_even (x / ulp64 x) \<le> round_half_even (of_int (2 ^ 53))"
    using scaled_less[OF assms] by (intro round_half_even_mono) simp
  then have "round_half_even (x / ulp64 x) \<le> 2 ^ 53" by (simp only: round_half_even_of_int)
  then have "(of_int (round_half_even (x / ulp64 x)) :: rat) \<le> of_int (2 ^ 53)"
    by (simp only: of_int_le_iff)
  then have "round64 x \<le> 2 ^ 53 * ulp64 x"
    using ulp64_pos[of x] by (simp add: round64_alt)
  also have "\<dots> = 2 ^ 53 * 2 powi (max (ilog2 x) (- 1022) - 52)" by (simp only: ulp64_def)
  also have "\<dots> = 2 powi (max (ilog2 x) (- 1022) + 1)" by (rule pow2_shift_53)
  finally show ?thesis .
qed

lemma round64_ge_pow:
  assumes "0 < x" "- 1022 \<le> ilog2 x"
  shows "2 powi (ilog2 x) \<le> round64 x"
proof -
  have "round_half_even (of_int (2 ^ 52)) \<le> round_half_even (x / ulp64 x)"
    using scaled_ge[OF assms] by (intro round_half_even_mono) simp
  then have "2 ^ 52 \<le> round_half_even (x / ulp64 x)" by (simp only: round_half_even_of_int)
  then have "(of_int (2 ^ 52) :: rat) \<le> of_int (round_half_even (x / ulp64 x))"
    by (simp only: of_int_le_iff)
  then have "2 ^ 52 * ulp64 x \<le> round64 x"
    using ulp64_pos[of x] by (simp add: round64_alt)
  moreover have "ulp64 x = 2 powi (ilog2 x - 52)" using assms(2) by (simp add: ulp64_def max_def)
  ultimately show ?thesis by (simp only: pow2_shift_52)
qed

lemma round64_mono:
  assumes "0 \<le> x" "x \<le> y"
  shows "round64 x \<le> round64 y"
proof (cases "x = 0")
  case True
  then show ?thesis using assms round64_nonneg[of y] by (simp add: round64_zero)
next
  case False
  then have x: "0 < x" and y: "0 < y" using assms by simp_all
  let ?Ex = "max (ilog2 x) (- 1022)" and ?Ey = "max (ilog2 y) (- 1022)"
  have le: "?Ex \<le> ?Ey" using ilog2_mono[OF x assms(2)] by simp
  show ?thesis
  proof (cases "?Ex = ?Ey")
    case True
    then have u: "ulp64 x = ulp64 y" by (simp add: ulp64_def)
    have "x / ulp64 y \<le> y / ulp64 y" using assms(2) ulp64_pos[of y] by (simp add: divide_right_mono)
    then have "round_half_even (x / ulp64 y) \<le> round_half_even (y / ulp64 y)"
      by (rule round_half_even_mono)
    then have "(of_int (round_half_even (x / ulp64 y)) :: rat) \<le> of_int (round_half_even (y / ulp64 y))"
      by (simp only: of_int_le_iff)
    then show ?thesis using ulp64_pos[of y] by (simp add: round64_alt u)
  next
    case False
    with le have lt: "?Ex < ?Ey" by linarith
    have ey: "?Ey = ilog2 y" "- 1022 \<le> ilog2 y" using lt by linarith+
    have "round64 x \<le> 2 powi (?Ex + 1)" by (rule round64_le_pow[OF x])
    also have "\<dots> \<le> 2 powi (ilog2 y)" using lt ey by (intro pow2_mono) linarith
    also have "\<dots> \<le> round64 y" by (rule round64_ge_pow[OF y ey(2)])
    finally show ?thesis .
  qed
qed

lemma round64_fixed:
  assumes "0 \<le> k" "k < 2 ^ 53" "- 1074 \<le> j"
  shows "round64 (of_int k * 2 powi j) = of_int k * 2 powi j"
proof (cases "k = 0")
  case True
  then show ?thesis by (simp add: round64_zero)
next
  case False
  define m :: rat where "m = of_int k * 2 powi j"
  define E where "E = max (ilog2 m) (- 1022)"
  from False assms have k: "0 < k" by simp
  then have m: "0 < m" by (simp add: m_def)
  have u: "ulp64 m = 2 powi (E - 52)" by (simp add: ulp64_def E_def)
  have "2 powi (ilog2 m) \<le> m" by (rule ilog2_bounds(1)[OF m])
  also have "m < of_int (2 ^ 53) * 2 powi j"
    unfolding m_def using assms(2)
    by (intro mult_strict_right_mono) (simp_all only: of_int_less_iff zero_less_power_int zero_less_numeral)
  also have "\<dots> = 2 powi (53 + j)" by (simp add: pow2_add)
  finally have "ilog2 m < 53 + j" by (rule pow2_less_cancel)
  then have E: "E - 52 \<le> j" using assms(3) by (simp add: E_def)
  define n where "n = nat (j - (E - 52))"
  have j: "j = (E - 52) + int n" using E by (simp add: n_def)
  have eq: "(2::rat) powi j = 2 powi (E - 52) * 2 ^ n"
    by (subst j) (simp add: pow2_add)
  have "m = of_int k * 2 powi j" by (simp only: m_def)
  also have "\<dots> = of_int k * (2 powi (E - 52) * 2 ^ n)" by (simp only: eq)
  also have "\<dots> = of_int (k * 2 ^ n) * 2 powi (E - 52)" by simp
  also have "\<dots> = of_int (k * 2 ^ n) * ulp64 m" by (simp only: u)
  finally have split: "m = of_int (k * 2 ^ n) * ulp64 m" .
  have "m / ulp64 m = of_int (k * 2 ^ n) * ulp64 m / ulp64 m" using split by simp
  also have "\<dots> = of_int (k * 2 ^ n)" using ulp64_pos[of m] by simp
  finally have "round_half_even (m / ulp64 m) = k * 2 ^ n" by (simp only: round_half_even_of_int)
  then have r: "round64 m = of_int (k * 2 ^ n) * ulp64 m" by (simp only: round64_alt[of m])
  have "round64 m = m" by (rule trans[OF r split[symmetric]])
  then show ?thesis by (simp only: m_def)
qed

lemma fixed_form:
  assumes "0 \<le> m" "round64 m = m"
  obtains k j where "m = of_int k * 2 powi j" "0 \<le> k" "k < 2 ^ 53" "- 1074 \<le> j"
proof (cases "m = 0")
  case True
  show ?thesis by (rule that[of 0 0]) (simp_all add: True)
next
  case False
  with assms have m: "0 < m" by simp
  define K where "K = round_half_even (m / ulp64 m)"
  define j where "j = max (ilog2 m) (- 1022) - 52"
  have mK: "m = of_int K * ulp64 m" using assms(2) by (simp add: round64_alt K_def)
  then have "m / ulp64 m = of_int K * ulp64 m / ulp64 m" by simp
  also have "\<dots> = of_int K" using ulp64_pos[of m] by simp
  finally have q: "m / ulp64 m = of_int K" .
  have "(of_int K :: rat) < of_int (2 ^ 53)" using scaled_less[OF m] q by simp
  then have K1: "K < 2 ^ 53" by (simp only: of_int_less_iff)
  have "0 \<le> m / ulp64 m" using m ulp64_pos[of m] by simp
  then have K0: "0 \<le> K" unfolding K_def by (rule round_half_even_nonneg)
  have "m = of_int K * 2 powi j" using mK by (simp add: ulp64_def j_def)
  moreover have "- 1074 \<le> j" by (simp add: j_def)
  ultimately show ?thesis using K0 K1 by (intro that[of K j])
qed

lemma round64_idem:
  assumes "0 \<le> x"
  shows "round64 (round64 x) = round64 x"
proof (cases "x = 0")
  case True
  then show ?thesis by (simp add: round64_zero)
next
  case False
  with assms have x: "0 < x" by simp
  define K where "K = round_half_even (x / ulp64 x)"
  define j where "j = max (ilog2 x) (- 1022) - 52"
  have r: "round64 x = of_int K * 2 powi j" by (simp add: round64_alt K_def ulp64_def j_def)
  have j: "- 1074 \<le> j" by (simp add: j_def)
  have "0 \<le> x / ulp64 x" using x ulp64_pos[of x] by simp
  then have K0: "0 \<le> K" unfolding K_def by (rule round_half_even_nonneg)
  have "K \<le> round_half_even (of_int (2 ^ 53))"
    unfolding K_def using scaled_less[OF x] by (intro round_half_even_mono) simp
  then have K1: "K \<le> 2 ^ 53" by (simp only: round_half_even_of_int)
  show ?thesis
  proof (cases "K = 2 ^ 53")
    case True
    have "round64 x = of_int (2 ^ 52) * 2 powi (j + 1)"
      by (simp add: r True pow2_Suc)
    moreover have "round64 (of_int (2 ^ 52) * 2 powi (j + 1)) = of_int (2 ^ 52) * 2 powi (j + 1)"
      using j by (intro round64_fixed) simp_all
    ultimately show ?thesis by simp
  next
    case False
    with K1 have "K < 2 ^ 53" by simp
    then have "round64 (of_int K * 2 powi j) = of_int K * 2 powi j"
      using K0 j by (intro round64_fixed)
    then show ?thesis by (simp only: r)
  qed
qed

lemma floor_fixed:
  assumes "0 \<le> m" "round64 m = m"
  shows "round64 (of_int \<lfloor>m\<rfloor>) = of_int \<lfloor>m\<rfloor>"
    and "round64 (m - of_int \<lfloor>m\<rfloor>) = m - of_int \<lfloor>m\<rfloor>"
proof -
  from assms obtain k j where kj: "m = of_int k * 2 powi j" "0 \<le> k" "k < 2 ^ 53" "- 1074 \<le> j"
    by (rule fixed_form)
  have "round64 (of_int \<lfloor>m\<rfloor>) = of_int \<lfloor>m\<rfloor> \<and> round64 (m - of_int \<lfloor>m\<rfloor>) = m - of_int \<lfloor>m\<rfloor>"
  proof (cases "0 \<le> j")
    case True
    then have "m = of_int (k * 2 ^ nat j)" using kj(1) by (simp add: power_int_nonneg_exp)
    then have f: "of_int \<lfloor>m\<rfloor> = m" by (simp only: floor_of_int)
    show ?thesis using assms(2) by (simp add: f round64_zero)
  next
    case False
    define d :: int where "d = 2 ^ nat (- j)"
    have d: "0 < d" by (simp add: d_def)
    have pj: "(2::rat) powi j = 1 / of_int d"
      using False by (simp add: d_def power_int_def field_simps)
    have md: "m = of_int k / of_int d" using kj(1) pj by simp
    then have fl: "\<lfloor>m\<rfloor> = k div d" by (simp add: floor_divide_of_int_eq)
    have "k div d \<le> k" using kj(2) int_div_le_self[of k d] by (cases "k = 0") auto
    then have q: "0 \<le> k div d" "k div d < 2 ^ 53"
      using kj(2,3) d by (simp_all add: pos_imp_zdiv_nonneg_iff)
    have 1: "round64 (of_int (k div d) * 2 powi 0) = of_int (k div d) * 2 powi 0"
      using q by (intro round64_fixed) simp_all
    have "k mod d \<le> k" using kj(2) by (rule zmod_le_nonneg_dividend)
    then have r: "0 \<le> k mod d" "k mod d < 2 ^ 53"
      using d kj(3) by simp_all
    have 2: "round64 (of_int (k mod d) * 2 powi j) = of_int (k mod d) * 2 powi j"
      using r kj(4) by (intro round64_fixed)
    have "m - of_int \<lfloor>m\<rfloor> = m - of_int (k div d)" by (simp only: fl)
    also have "\<dots> = of_int k / of_int d - of_int (k div d)" by (simp only: md)
    also have "\<dots> = (of_int k - of_int (k div d) * of_int d) / of_int d"
      using d by (simp add: field_simps)
    also have "of_int k - of_int (k div d) * of_int d = (of_int (k mod d) :: rat)"
      by (simp add: minus_div_mult_eq_mod flip: of_int_mult of_int_diff)
    finally have "m - of_int \<lfloor>m\<rfloor> = of_int (k mod d) * 2 powi j" by (simp add: pj)
    then show ?thesis using 1 2 by (simp add: fl)
  qed
  then show "round64 (of_int \<lfloor>m\<rfloor>) = of_int \<lfloor>m\<rfloor>"
    and "round64 (m - of_int \<lfloor>m\<rfloor>) = m - of_int \<lfloor>m\<rfloor>" by simp_all
qed

lemma below_one:
  assumes "0 \<le> m" "round64 m = m" "m < 1"
  shows "m \<le> 1 - 1 / 2 ^ 53"
proof -
  from assms(1,2) obtain k j where kj: "m = of_int k * 2 powi j" "0 \<le> k" "k < 2 ^ 53" "- 1074 \<le> j"
    by (rule fixed_form)
  show ?thesis
  proof (cases "- 53 \<le> j")
    case True
    define n where "n = nat (j + 53)"
    have "(2::rat) powi (53 + j) = 2 ^ n" using True by (simp add: n_def power_int_nonneg_exp algebra_simps)
    then have "m * 2 ^ 53 = of_int (k * 2 ^ n)"
      using pow2_add[of 53 j] by (simp add: kj(1))
    moreover have "m * 2 ^ 53 < of_int (2 ^ 53)" using assms(3) by simp
    ultimately have "(of_int (k * 2 ^ n) :: rat) < of_int (2 ^ 53)" by simp
    then have "k * 2 ^ n < 2 ^ 53" by (simp only: of_int_less_iff)
    then have "k * 2 ^ n \<le> 2 ^ 53 - 1" by simp
    then have "(of_int (k * 2 ^ n) :: rat) \<le> of_int (2 ^ 53 - 1)" by (simp only: of_int_le_iff)
    with \<open>m * 2 ^ 53 = of_int (k * 2 ^ n)\<close> have "m * 2 ^ 53 \<le> 2 ^ 53 - 1" by simp
    then show ?thesis by (simp add: field_simps)
  next
    case False
    then have "j \<le> - 54" by simp
    have kk: "(of_int k :: rat) \<le> of_int (2 ^ 53)" using kj(3) by (subst of_int_le_iff) simp
    have "m \<le> of_int (2 ^ 53) * 2 powi j"
      unfolding kj(1) by (rule mult_right_mono[OF kk]) simp
    also have "\<dots> \<le> of_int (2 ^ 53) * 2 powi (- 54)"
      using \<open>j \<le> - 54\<close> by (intro mult_left_mono pow2_mono) simp_all
    also have "\<dots> = 1 / 2" by (simp add: power_int_def power_divide)
    finally show ?thesis by simp
  qed
qed

subsection \<open>The float below a product with a fraction\<close>

text \<open>
  For a binary64 number \<open>B \<ge> 2\<close>, the product of \<open>B\<close> with the largest float below 1 rounds
  to the float just below \<open>B\<close>. Hence a fraction below 1 times the float of an integer
  \<open>c\<close> rounds to less than \<open>c\<close>, also where the float of \<open>c\<close> is not \<open>c\<close> itself.
\<close>

lemma round64_below:
  assumes "2 \<le> B" "round64 B = B"
  shows "round64 ((1 - 1 / 2 ^ 53) * B) < B"
proof -
  define e where "e = ilog2 B"
  define u where "u = (2::rat) powi (e - 52)"
  define N where "N = round_half_even (B / ulp64 B)"
  define x where "x = (1 - 1 / 2 ^ 53) * B"
  have B: "0 < B" using assms(1) by simp
  have lo: "2 powi e \<le> B" and hi: "B < 2 powi (e + 1)"
    unfolding e_def by (rule ilog2_bounds[OF B])+
  have "(2::rat) powi 1 \<le> B" using assms(1) by simp
  also note hi
  finally have "1 < e + 1" by (rule pow2_less_cancel)
  then have e: "1 \<le> e" by simp
  have upos: "0 < u" by (simp add: u_def)
  have uB: "ulp64 B = u" using e by (simp add: ulp64_def u_def e_def max_def)
  have BN: "B = of_int N * u" using assms(2) by (simp add: round64_alt N_def uB)
  then have "B / u = of_int N * u / u" by simp
  then have q: "B / u = of_int N" using upos by simp
  have "(of_int N :: rat) < of_int (2 ^ 53)" using scaled_less[OF B] q uB by simp
  then have N1: "N < 2 ^ 53" by (simp only: of_int_less_iff)
  have "- 1022 \<le> ilog2 B" using e by (simp add: e_def)
  then have "(of_int (2 ^ 52) :: rat) \<le> of_int N" using scaled_ge[OF B] q uB by simp
  then have N0: "2 ^ 52 \<le> N" by (simp only: of_int_le_iff)
  have xB: "x < B" using B by (simp add: x_def field_simps)
  have "round64 x < B"
  proof (cases "N = 2 ^ 52")
    case True
    have "u = 2 * 2 powi (e - 53)" using pow2_Suc[of "e - 53"] by (simp add: u_def)
    then have "x = of_int (2 ^ 53 - 1) * 2 powi (e - 53)"
      by (simp add: x_def BN True)
    moreover have "round64 (of_int (2 ^ 53 - 1) * 2 powi (e - 53)) = of_int (2 ^ 53 - 1) * 2 powi (e - 53)"
      using e by (intro round64_fixed) simp_all
    ultimately have "round64 x = x" by simp
    then show ?thesis using xB by simp
  next
    case False
    with N0 have N2: "2 ^ 52 + 1 \<le> N" by simp
    define r :: rat where "r = 1 - of_int N / 2 ^ 53"
    have "(of_int N :: rat) < of_int (2 ^ 53)" using N1 by (simp only: of_int_less_iff)
    then have r0: "0 \<le> r" by (simp add: r_def)
    have "(of_int (2 ^ 52 + 1) :: rat) \<le> of_int N" using N2 by (simp only: of_int_le_iff)
    then have r1: "r < 1 / 2" by (simp add: r_def)
    have xu: "x = (of_int (N - 1) + r) * u"
      by (simp add: x_def BN r_def algebra_simps)
    have "(of_int (2 ^ 52) :: rat) \<le> of_int (N - 1)" using N2 by (subst of_int_le_iff) simp
    then have "2 ^ 52 * u \<le> of_int (N - 1) * u" using upos by simp
    also have "\<dots> \<le> x" unfolding xu using r0 upos by (simp add: algebra_simps)
    finally have "2 powi e \<le> x" by (simp only: u_def pow2_shift_52)
    moreover have "x < 2 powi (e + 1)" using xB hi by simp
    ultimately have "ilog2 x = e" by (rule ilog2_unique)
    then have ux: "ulp64 x = u" using e by (simp add: ulp64_def u_def max_def)
    have "x / u = (of_int (N - 1) + r) * u / u" by (simp only: xu)
    then have "x / u = of_int (N - 1) + r" using upos by simp
    then have "round_half_even (x / u) = N - 1" using r0 r1 by (simp only: round_half_even_down)
    then have "round64 x = of_int (N - 1) * u" by (simp only: round64_alt[of x] ux)
    also have "\<dots> < of_int N * u" using upos by simp
    finally show ?thesis by (simp only: BN[symmetric])
  qed
  then show ?thesis by (simp only: x_def)
qed

lemma round64_two: "round64 2 = 2"
  using round64_fixed[of 2 0] by simp

lemma scaled_digit_bound:
  assumes "0 \<le> m" "round64 m = m" "m < 1" "2 \<le> c"
  shows "round64 (m * round64 c) < c" and "round64 (m * round64 c) < round64 c"
proof -
  define B where "B = round64 c"
  define P where "P = round64 ((1 - 1 / 2 ^ 53) * B)"
  have c: "0 \<le> c" using assms(4) by simp
  have "round64 2 \<le> round64 c" using assms(4) by (intro round64_mono) simp_all
  then have B2: "2 \<le> B" by (simp add: B_def round64_two)
  have Bf: "round64 B = B" unfolding B_def by (rule round64_idem[OF c])
  have PB: "P < B" unfolding P_def by (rule round64_below[OF B2 Bf])
  have "0 \<le> (1 - 1 / 2 ^ 53) * B" using B2 by simp
  then have Pf: "round64 P = P" unfolding P_def by (rule round64_idem)
  have mu: "m \<le> 1 - 1 / 2 ^ 53" by (rule below_one[OF assms(1,2,3)])
  have "m * B \<le> (1 - 1 / 2 ^ 53) * B" using mu B2 by (intro mult_right_mono) simp_all
  moreover have "0 \<le> m * B" using assms(1) B2 by simp
  ultimately have le: "round64 (m * B) \<le> P" unfolding P_def by (intro round64_mono)
  have "P < c"
  proof (rule ccontr)
    assume "\<not> P < c"
    then have "c \<le> P" by simp
    then have "round64 c \<le> round64 P" using c by (intro round64_mono)
    then show False using PB by (simp add: Pf B_def)
  qed
  with le show "round64 (m * round64 c) < c" by (simp add: B_def)
  from le PB show "round64 (m * round64 c) < round64 c" by (simp add: B_def)
qed

section \<open>Claims about \<^verbatim>\<open>convert_fraction\<close>\<close>

subsection \<open>One pass of the digit loop on a fraction below 1\<close>

lemma int_to_float_nonneg:
  assumes "0 \<le> n"
  shows "int_to_float n =
           (if 2 ^ 1024 \<le> round64 (of_int n) then Inl OverflowError
            else Inr (Finite False (round64 (of_int n))))"
  using assms by (simp add: int_to_float_def fl64_def Let_def)

lemma fraction_step_unit:
  assumes tb: "2 \<le> tb" and m: "0 \<le> m" "m < 1" "round64 m = m" and s: "s \<longrightarrow> m = 0"
    and fin: "round64 (of_int tb) < 2 ^ 1024"
  defines "p \<equiv> round64 (m * round64 (of_int tb))"
  shows "fraction_step tb (Finite s m) res =
           bind_exc (append_digit \<lfloor>p\<rfloor> res) (\<lambda>res'. Inr (\<lfloor>p\<rfloor>, Finite s (p - of_int \<lfloor>p\<rfloor>), res'))"
    and "0 \<le> \<lfloor>p\<rfloor>" and "\<lfloor>p\<rfloor> < tb" and "unit_fraction (Finite s (p - of_int \<lfloor>p\<rfloor>))"
proof -
  define B where "B = round64 (of_int tb)"
  define d :: rat where "d = of_int \<lfloor>p\<rfloor>"
  have c2: "(2::rat) \<le> of_int tb" using tb by simp
  have pB: "p < B" and pc: "p < of_int tb"
    unfolding p_def B_def by (rule scaled_digit_bound[OF m(1,3,2) c2])+
  have B0: "0 \<le> B" unfolding B_def by (rule round64_nonneg) (use tb in simp)
  have mB: "0 \<le> m * B" using m(1) B0 by simp
  have p0: "0 \<le> p" unfolding p_def B_def[symmetric] by (rule round64_nonneg[OF mB])
  have pf: "round64 p = p" unfolding p_def B_def[symmetric] by (rule round64_idem[OF mB])
  have pfin: "p < 2 ^ 1024" using pB fin by (simp add: B_def)
  have sp: "p = 0" if "s"
    using that s by (simp add: p_def round64_zero)
  have f0: "0 \<le> \<lfloor>p\<rfloor>" using p0 by simp
  have f1: "\<lfloor>p\<rfloor> < tb" using pc by (simp add: floor_less_iff)
  have dp: "d \<le> p" by (simp add: d_def)
  have df: "round64 d = d" unfolding d_def by (rule floor_fixed(1)[OF p0 pf])
  have rf: "round64 (p - d) = p - d" unfolding d_def by (rule floor_fixed(2)[OF p0 pf])
  have r1: "p - d < 1" unfolding d_def by linarith
  have r0: "0 \<le> p - d" using dp by simp
  have 1: "int_to_float tb = Inr (Finite False B)"
    using tb fin by (simp add: int_to_float_nonneg B_def)
  have 2: "fmul (Finite s m) (Finite False B) = Finite s p"
    using pfin by (simp add: fl64_def p_def B_def Let_def)
  have 3: "float_to_int (Finite s p) = Inr \<lfloor>p\<rfloor>"
    using sp by (cases s) simp_all
  have 4: "int_to_float \<lfloor>p\<rfloor> = Inr (Finite False d)"
    using f0 df dp pfin by (simp add: int_to_float_nonneg d_def[symmetric])
  have 5: "fsub (Finite s p) (Finite False d) = Finite s (p - d)"
  proof (cases s)
    case True
    then have "p = 0" by (rule sp)
    then have "d = 0" by (simp add: d_def)
    with \<open>p = 0\<close> True show ?thesis by (simp add: fsub_def fl64_def round64_zero)
  next
    case False
    show ?thesis
    proof (cases "p = d")
      case True
      with False show ?thesis by (simp add: fsub_def)
    next
      case ne: False
      with dp have "d < p" by simp
      with False ne r1 show ?thesis by (simp add: fsub_def fl64_def rf Let_def)
    qed
  qed
  show "fraction_step tb (Finite s m) res =
           bind_exc (append_digit \<lfloor>p\<rfloor> res) (\<lambda>res'. Inr (\<lfloor>p\<rfloor>, Finite s (p - of_int \<lfloor>p\<rfloor>), res'))"
    by (simp only: fraction_step_def 1 2 3 4[unfolded d_def] 5[unfolded d_def] bind_exc_def
        sum.case Let_def)
  show "0 \<le> \<lfloor>p\<rfloor>" by (rule f0)
  show "\<lfloor>p\<rfloor> < tb" by (rule f1)
  show "unit_fraction (Finite s (p - of_int \<lfloor>p\<rfloor>))"
    using r0 r1 rf sp by (auto simp: unit_fraction_def d_def)
qed

lemma append_digit_small:
  assumes "0 \<le> digit" "digit < 16"
  shows "append_digit digit res = Inr (res @ [upper_char (digit_char (nat digit))])"
    and "digit_value (upper_char (digit_char (nat digit))) = nat digit"
proof -
  show "append_digit digit res = Inr (res @ [upper_char (digit_char (nat digit))])"
  proof (cases "10 \<le> digit")
    case True
    with assms have "py_chr (of_char (CHR ''A'') + digit - 10) = Inr (nat (55 + digit))"
      by (simp add: py_chr_def)
    moreover have nd: "10 \<le> nat digit" "nat digit < 16" using True assms by linarith+
    have "nat (55 + digit) = 55 + nat digit" using assms by linarith
    with nd have "upper_char (digit_char (nat digit)) = nat (55 + digit)"
      by (simp add: upper_char_def digit_char_def)
    ultimately show ?thesis using True by (simp add: append_digit_def bind_exc_def)
  next
    case False
    with assms have "py_str digit = [digit_char (nat digit)]"
      by (subst py_str_nonneg) (simp_all add: to_digits.simps)
    moreover have "nat digit < 10" using False assms by linarith
    then have "upper_char (digit_char (nat digit)) = digit_char (nat digit)"
      by (simp add: upper_char_def digit_char_def)
    ultimately show ?thesis using False by (simp add: append_digit_def)
  qed
  have "nat digit < 36" using assms by simp
  then show "digit_value (upper_char (digit_char (nat digit))) = nat digit"
    by (simp add: digit_value_upper_char digit_value_digit_char)
qed

end
